theory Spec2Isabelle
  imports Complex_Main "HOL-Library.Extended_Nat"
begin

section \<open>Text: characters, lines and the string methods the parsers call\<close>

text \<open>
  Page text is a \<^typ>\<open>string\<close>. The character classes are the ASCII ones:
  \<open>str.isdigit\<close>, \<open>str.isalnum\<close>, \<open>str.lower\<close>, \<open>str.upper\<close>,
  \<open>str.strip\<close> and the regular-expression classes \<open>\d\<close>, \<open>\s\<close>, \<open>\w\<close>
  are modelled on ASCII text; a character outside ASCII is an ordinary symbol
  (no digit, no letter, no white space).
\<close>

definition is_digit :: "char \<Rightarrow> bool" where
  "is_digit c = (c \<in> set ''0123456789'')"

definition is_upper :: "char \<Rightarrow> bool" where
  "is_upper c = (c \<in> set ''ABCDEFGHIJKLMNOPQRSTUVWXYZ'')"

definition is_lower :: "char \<Rightarrow> bool" where
  "is_lower c = (c \<in> set ''abcdefghijklmnopqrstuvwxyz'')"

definition is_alnum :: "char \<Rightarrow> bool" where
  "is_alnum c = (is_digit c \<or> is_upper c \<or> is_lower c)"

text \<open>\<open>\w\<close>: a letter, a digit or the underscore.\<close>

definition is_word :: "char \<Rightarrow> bool" where
  "is_word c = (is_alnum c \<or> c = CHR ''_'')"

text \<open>
  White space as \<open>str.strip()\<close>, \<open>str.isspace()\<close> and \<open>\s\<close> see it: tab, line feed,
  vertical tab, form feed, carriage return, the four separators 0x1C to 0x1F, and space.
\<close>

definition is_space :: "char \<Rightarrow> bool" where
  "is_space c = (c \<in> set [CHR 0x09, CHR 0x0A, CHR 0x0B, CHR 0x0C, CHR 0x0D,
                            CHR 0x1C, CHR 0x1D, CHR 0x1E, CHR 0x1F, CHR '' ''])"

text \<open>The line boundaries of \<open>str.splitlines()\<close>.\<close>

definition is_linebreak :: "char \<Rightarrow> bool" where
  "is_linebreak c = (c \<in> set [CHR 0x0A, CHR 0x0B, CHR 0x0C, CHR 0x0D,
                                CHR 0x1C, CHR 0x1D, CHR 0x1E])"

definition to_lower :: "char \<Rightarrow> char" where
  "to_lower c = (case map_of (zip ''ABCDEFGHIJKLMNOPQRSTUVWXYZ'' ''abcdefghijklmnopqrstuvwxyz'') c of
                   Some d \<Rightarrow> d | None \<Rightarrow> c)"

definition to_upper :: "char \<Rightarrow> char" where
  "to_upper c = (case map_of (zip ''abcdefghijklmnopqrstuvwxyz'' ''ABCDEFGHIJKLMNOPQRSTUVWXYZ'') c of
                   Some d \<Rightarrow> d | None \<Rightarrow> c)"

definition lower :: "string \<Rightarrow> string" where
  "lower s = map to_lower s"

definition upper :: "string \<Rightarrow> string" where
  "upper s = map to_upper s"

text \<open>\<open>s.isdigit()\<close>: non-empty and digits only.\<close>

definition isdigit :: "string \<Rightarrow> bool" where
  "isdigit s = (s \<noteq> [] \<and> list_all is_digit s)"

definition strip :: "string \<Rightarrow> string" where
  "strip s = rev (dropWhile is_space (rev (dropWhile is_space s)))"

text \<open>\<open>s.startswith(p)\<close>.\<close>

fun startswith :: "string \<Rightarrow> string \<Rightarrow> bool" where
  "startswith s [] = True"
| "startswith [] (p # ps) = False"
| "startswith (c # s) (p # ps) = (c = p \<and> startswith s ps)"

text \<open>\<open>w in s\<close> on strings: \<open>w\<close> occurs in \<open>s\<close> as a substring.\<close>

fun contains :: "string \<Rightarrow> string \<Rightarrow> bool" where
  "contains w [] = (w = [])"
| "contains w (c # s) = (startswith (c # s) w \<or> contains w s)"

text \<open>
  \<open>s.replace(old, new)\<close> for a non-empty \<open>old\<close>: the occurrences are replaced from the
  left, without overlap.
\<close>

fun replace :: "string \<Rightarrow> string \<Rightarrow> string \<Rightarrow> string" where
  "replace old new [] = []"
| "replace old new (c # s) =
     (if old \<noteq> [] \<and> startswith (c # s) old
      then new @ replace old new (drop (length old - 1) s)
      else c # replace old new s)"

text \<open>
  \<open>text.splitlines()\<close>: the text is cut at every line boundary, \<open>\r\n\<close> counting as one;
  a boundary at the very end opens no further line. The first argument is the line read
  so far, reversed.
\<close>

fun splitlines_from :: "string \<Rightarrow> string \<Rightarrow> string list" where
  "splitlines_from cur [] = (if cur = [] then [] else [rev cur])"
| "splitlines_from cur [c] = (if is_linebreak c then [rev cur] else [rev (c # cur)])"
| "splitlines_from cur (c # d # s) =
     (if c = CHR 0x0D \<and> d = CHR 0x0A then rev cur # splitlines_from [] s
      else if is_linebreak c then rev cur # splitlines_from [] (d # s)
      else splitlines_from (c # cur) (d # s))"

definition splitlines :: "string \<Rightarrow> string list" where
  "splitlines text = splitlines_from [] text"

text \<open>
  The Line Tokenizer every extractor starts with:
  \<^verbatim>\<open>[ln.strip() for ln in text.splitlines() if ln.strip()]\<close>.
\<close>

definition page_lines :: "string \<Rightarrow> string list" where
  "page_lines text = filter (\<lambda>line. line \<noteq> []) (map strip (splitlines text))"

section \<open>Regular expressions as Python's \<open>re\<close> matches them\<close>

text \<open>
  A backtracking matcher: \<open>ms t r i\<close> lists the positions at which a match of \<open>r\<close> that
  starts at position \<open>i\<close> of the text \<open>t\<close> can end, in the order in which Python's
  matcher tries them (a greedy repetition tries one more round first, an alternative its
  left branch first). The first position of the list is the match \<open>re\<close> reports.
\<close>

datatype rx =
    Atom "char \<Rightarrow> bool"
  | Eps
  | Seq rx rx
  | Alt rx rx
  | Star rx
  | WordB
  | Bol
  | Eol

text \<open>
  \<open>\b\<close>: exactly one of the two neighbouring characters is a word character.
  \<open>Bol\<close> is \<open>^\<close> and \<open>Eol\<close> is \<open>$\<close> (the end, or just before a final line feed).
\<close>

definition word_boundary :: "string \<Rightarrow> nat \<Rightarrow> bool" where
  "word_boundary t i =
     ((0 < i \<and> i \<le> length t \<and> is_word (t ! (i - 1))) \<noteq> (i < length t \<and> is_word (t ! i)))"

function ms :: "string \<Rightarrow> rx \<Rightarrow> nat \<Rightarrow> nat list" where
  "ms t (Atom p) i = (if i < length t \<and> p (t ! i) then [Suc i] else [])"
| "ms t Eps i = [i]"
| "ms t (Seq a b) i = concat (map (ms t b) (ms t a i))"
| "ms t (Alt a b) i = ms t a i @ ms t b i"
| "ms t (Star a) i =
     concat (map (\<lambda>j. if i < j \<and> j \<le> length t then ms t (Star a) j else []) (ms t a i)) @ [i]"
| "ms t WordB i = (if word_boundary t i then [i] else [])"
| "ms t Bol i = (if i = 0 then [i] else [])"
| "ms t Eol i =
     (if i = length t \<or> (Suc i = length t \<and> t ! i = CHR 0x0A) then [i] else [])"
  by pat_completeness auto
termination
  by (relation "measures [\<lambda>(t, r, i). size r, \<lambda>(t, r, i). length t - i]") auto

declare ms.simps(5) [simp del]

text \<open>The pattern constructors: a literal, \<open>r?\<close>, \<open>r+\<close>, \<open>r{n}\<close>, \<open>r{m,n}\<close>, \<open>r{m,}\<close>.\<close>

definition rx_chr :: "char \<Rightarrow> rx" where
  "rx_chr c = Atom (\<lambda>d. d = c)"

fun rx_lit :: "string \<Rightarrow> rx" where
  "rx_lit [] = Eps"
| "rx_lit (c # s) = Seq (rx_chr c) (rx_lit s)"

definition rx_opt :: "rx \<Rightarrow> rx" where
  "rx_opt r = Alt r Eps"

definition rx_plus :: "rx \<Rightarrow> rx" where
  "rx_plus r = Seq r (Star r)"

fun rx_rep :: "rx \<Rightarrow> nat \<Rightarrow> rx" where
  "rx_rep r 0 = Eps"
| "rx_rep r (Suc n) = Seq r (rx_rep r n)"

fun rx_upto :: "rx \<Rightarrow> nat \<Rightarrow> rx" where
  "rx_upto r 0 = Eps"
| "rx_upto r (Suc n) = Alt (Seq r (rx_upto r n)) Eps"

definition rx_range :: "rx \<Rightarrow> nat \<Rightarrow> nat \<Rightarrow> rx" where
  "rx_range r m n = Seq (rx_rep r m) (rx_upto r (n - m))"

definition rx_min :: "rx \<Rightarrow> nat \<Rightarrow> rx" where
  "rx_min r m = Seq (rx_rep r m) (Star r)"

definition rx_digit :: rx where
  "rx_digit = Atom is_digit"

text \<open>\<open>re.fullmatch(r, s)\<close> as a truth value: some way of matching ends at the end.\<close>

definition fullmatch :: "rx \<Rightarrow> string \<Rightarrow> bool" where
  "fullmatch r s = (length s \<in> set (ms s r 0))"


text \<open>
  A pattern with one group is given as the three patterns \<open>pre (g) post\<close>.
  \<open>match_at\<close> lists the ways of matching it at position \<open>p\<close>, in the matcher's order, each as
  the start and the end of the group and the end of the whole match. A pattern without a
  group is \<open>Eps (r) Eps\<close>: its group is the whole match, \<open>group(0)\<close>.
\<close>

definition match_at :: "string \<Rightarrow> rx \<Rightarrow> rx \<Rightarrow> rx \<Rightarrow> nat \<Rightarrow> (nat \<times> nat \<times> nat) list" where
  "match_at t pre g post p =
     concat (map (\<lambda>m. concat (map (\<lambda>j. map (\<lambda>e. (m, j, e)) (ms t post j)) (ms t g m))) (ms t pre p))"

definition slice :: "string \<Rightarrow> nat \<Rightarrow> nat \<Rightarrow> string" where
  "slice t m j = take (j - m) (drop m t)"

text \<open>
  \<open>re.search\<close> from position \<open>i\<close>: the leftmost position with a match, and the first
  match there.
\<close>

definition search_from :: "rx \<Rightarrow> rx \<Rightarrow> rx \<Rightarrow> string \<Rightarrow> nat \<Rightarrow> (nat \<times> nat \<times> nat \<times> nat) option" where
  "search_from pre g post t i =
     (case find (\<lambda>p. match_at t pre g post p \<noteq> []) [i..<Suc (length t)] of
        None \<Rightarrow> None
      | Some p \<Rightarrow> Some (p, hd (match_at t pre g post p)))"

text \<open>\<open>re.search(pattern, t)\<close> followed by \<open>m.group(1)\<close>; \<open>None\<close> when there is no match.\<close>

definition search_group :: "rx \<Rightarrow> rx \<Rightarrow> rx \<Rightarrow> string \<Rightarrow> string option" where
  "search_group pre g post t =
     (case search_from pre g post t 0 of
        None \<Rightarrow> None
      | Some (p, m, j, e) \<Rightarrow> Some (slice t m j))"

text \<open>
  \<open>re.findall(pattern, t)\<close>: the groups of the successive matches, each search starting
  where the last match ended (one further on after an empty match).
\<close>

function findall_from :: "rx \<Rightarrow> rx \<Rightarrow> rx \<Rightarrow> string \<Rightarrow> nat \<Rightarrow> string list" where
  "findall_from pre g post t i =
     (case search_from pre g post t i of
        None \<Rightarrow> []
      | Some (p, m, j, e) \<Rightarrow>
          slice t m j #
            (let nxt = (if e = p then Suc e else e)
             in if i < nxt then findall_from pre g post t nxt else []))"
  by pat_completeness auto
termination
proof (relation "measure (\<lambda>(pre, g, post, t, i). Suc (length t) - i)")
  fix pre g post :: rx and t :: string and i :: nat and x2 p y m z j e nxt
  assume s: "search_from pre g post t i = Some x2" and "i < nxt"
  from s obtain q where "find (\<lambda>p. match_at t pre g post p \<noteq> []) [i..<Suc (length t)] = Some q"
    by (auto simp: search_from_def split: option.splits)
  then have "q \<in> set [i..<Suc (length t)]"
    unfolding find_Some_iff by (metis nth_mem)
  then have "i < Suc (length t)"
    by (simp del: upt_Suc)
  with \<open>i < nxt\<close> show "((pre, g, post, t, nxt), (pre, g, post, t, i))
       \<in> measure (\<lambda>(pre, g, post, t, i). Suc (length t) - i)"
    by simp
qed simp

declare findall_from.simps [simp del]

definition findall :: "rx \<Rightarrow> rx \<Rightarrow> rx \<Rightarrow> string \<Rightarrow> string list" where
  "findall pre g post t = findall_from pre g post t 0"

text \<open>
  Bounds on a match, read off the pattern: for a property \<open>Q\<close> of characters, \<open>rx_lo Q r\<close>
  is a number of \<open>Q\<close>-characters every match of \<open>r\<close> has at least, and \<open>rx_hi Q r\<close> one it
  has at most. \<open>cnt Q t i j\<close> counts the \<open>Q\<close>-characters of the text from \<open>i\<close> up to \<open>j\<close>.
\<close>

fun rx_lo :: "(char \<Rightarrow> bool) \<Rightarrow> rx \<Rightarrow> nat" where
  "rx_lo Q (Atom p) = (if \<forall>c. p c \<longrightarrow> Q c then 1 else 0)"
| "rx_lo Q (Seq a b) = rx_lo Q a + rx_lo Q b"
| "rx_lo Q (Alt a b) = min (rx_lo Q a) (rx_lo Q b)"
| "rx_lo Q r = 0"

fun rx_hi :: "(char \<Rightarrow> bool) \<Rightarrow> rx \<Rightarrow> enat" where
  "rx_hi Q (Atom p) = (if \<forall>c. p c \<longrightarrow> \<not> Q c then 0 else 1)"
| "rx_hi Q (Seq a b) = rx_hi Q a + rx_hi Q b"
| "rx_hi Q (Alt a b) = max (rx_hi Q a) (rx_hi Q b)"
| "rx_hi Q (Star a) = (if rx_hi Q a = 0 then 0 else \<infinity>)"
| "rx_hi Q r = 0"

definition cnt :: "(char \<Rightarrow> bool) \<Rightarrow> string \<Rightarrow> nat \<Rightarrow> nat \<Rightarrow> nat" where
  "cnt Q t i j = length (filter Q (slice t i j))"

section \<open>Errors and numbers\<close>

text \<open>The exceptions a parser can raise, as values.\<close>

datatype error = ValueError | IndexError | RuntimeError string

text \<open>\<open>xs[i]\<close>: a negative index counts from the end; out of range raises.\<close>

definition py_get :: "'a list \<Rightarrow> int \<Rightarrow> error + 'a" where
  "py_get xs i =
     (if 0 \<le> i \<and> i < int (length xs) then Inr (xs ! nat i)
      else if i < 0 \<and> - int (length xs) \<le> i then Inr (xs ! nat (int (length xs) + i))
      else Inl IndexError)"

text \<open>Sequencing of two steps either of which may raise.\<close>

definition and_then :: "error + 'a \<Rightarrow> ('a \<Rightarrow> error + 'b) \<Rightarrow> error + 'b" where
  "and_then r f = (case r of Inl e \<Rightarrow> Inl e | Inr x \<Rightarrow> f x)"

text \<open>
  \<open>float(s)\<close> on the decimal literals \<open>digits\<close> and \<open>digits.digits\<close>, the only numbers
  the extractors pass to it. The model keeps the exact decimal value as a rational
  (Python holds the double nearest to it). Every other string gives \<open>None\<close>, Python's
  \<open>ValueError\<close>: of those, the program can only pass a quantity line whose unit is not the
  upper-case \<open>TN\<close>, which \<open>float\<close> rejects.
\<close>

definition digit_value :: "char \<Rightarrow> nat" where
  "digit_value c = of_char c - 48"

definition nat_of_digits :: "string \<Rightarrow> nat" where
  "nat_of_digits s = foldl (\<lambda>n c. 10 * n + digit_value c) 0 s"

definition decimal_value :: "string \<Rightarrow> rat" where
  "decimal_value s =
     (let ip = takeWhile is_digit s; fp = drop (Suc (length ip)) s
      in of_nat (nat_of_digits ip) + of_nat (nat_of_digits fp) / 10 ^ length fp)"

text \<open>The pattern \<^verbatim>\<open>\d+(\.\d+)?\<close>.\<close>

definition decimal_rx :: rx where
  "decimal_rx = Seq (rx_plus rx_digit) (rx_opt (Seq (rx_chr CHR ''.'') (rx_plus rx_digit)))"

definition py_float :: "string \<Rightarrow> rat option" where
  "py_float s = (if fullmatch decimal_rx s then Some (decimal_value s) else None)"

section \<open>Knife\_River.py: the six-line load blocks\<close>

definition is_truck_code :: "string \<Rightarrow> bool" where
  "is_truck_code line = fullmatch (Seq (rx_rep (Atom is_upper) 3) rx_digit) line"

definition is_quantity_line :: "string \<Rightarrow> bool" where
  "is_quantity_line line =
     fullmatch (Seq (rx_plus rx_digit) (Seq (rx_opt (Seq (rx_chr CHR ''.'') (rx_plus rx_digit)))
                (Seq (Star (Atom is_space)) (rx_lit ''TN'')))) (upper line)"

definition is_unit_price :: "string \<Rightarrow> bool" where
  "is_unit_price line =
     fullmatch (Seq (rx_plus rx_digit) (rx_opt (Seq (rx_chr CHR ''.'') (rx_range rx_digit 1 4)))) line"

definition is_extended_price :: "string \<Rightarrow> bool" where
  "is_extended_price line =
     fullmatch (Seq (rx_plus rx_digit) (Seq (rx_chr CHR ''.'') (rx_rep rx_digit 2))) line"

text \<open>Words we never want in a load block.\<close>

definition bad_words :: "string list" where
  "bad_words = [''item'', ''description'', ''special'', ''instructions'',
                ''subtotal'', ''total'', ''sales'', ''discount'',
                ''taxable'', ''nontaxable'', ''kr-mtn'', ''quantity'']"

text \<open>The window-start predicate: a ticket number, five to seven digits.\<close>

definition is_ticket :: "string \<Rightarrow> bool" where
  "is_ticket line = (isdigit line \<and> 5 \<le> length line \<and> length line \<le> 7)"

text \<open>
  One round of the loop of \<open>extract_item_blocks\<close>. The state is the pair of the blocks
  emitted so far and the buffer \<open>current\<close>; an empty buffer is the state SEEKING.
\<close>

definition block_step :: "string \<Rightarrow> string list list \<times> string list \<Rightarrow> string list list \<times> string list" where
  "block_step line st =
     (case st of (blocks, current) \<Rightarrow>
        if list_ex (\<lambda>word. contains word (lower line)) bad_words then (blocks, current)
        else if is_ticket line then (blocks, [line])
        else if current \<noteq> [] then
          (let current' = current @ [line] in
           if length current' = 6 then
             (if is_truck_code (current' ! 2) \<and> is_quantity_line (current' ! 3)
                 \<and> is_unit_price (current' ! 4) \<and> is_extended_price (current' ! 5)
              then (blocks @ [current'], [])
              else (blocks, []))
           else (blocks, current'))
        else (blocks, current))"

definition item_blocks_of_lines :: "string list \<Rightarrow> string list list" where
  "item_blocks_of_lines lines = fst (fold block_step lines ([], []))"

definition extract_item_blocks :: "string \<Rightarrow> string list list" where
  "extract_item_blocks text = item_blocks_of_lines (page_lines text)"

text \<open>The dictionary \<open>parse_block\<close> builds for one load.\<close>

record load =
  job_name :: "string option"
  ticket :: string
  description :: string
  truck :: string
  quantity_tons :: rat
  unit_price :: rat
  extended_price :: rat

text \<open>
  \<open>parse_block\<close> unpacks a block of exactly six lines (any other length raises
  \<open>ValueError\<close>) and converts the three numbers.
\<close>

definition parse_block :: "string list \<Rightarrow> string option \<Rightarrow> error + load" where
  "parse_block block jobname =
     (case block of
        [tk, desc, trk, qty, unit, ext] \<Rightarrow>
          (case py_float (strip (replace ''TN'' [] qty)) of
             None \<Rightarrow> Inl ValueError
           | Some q \<Rightarrow>
               (case py_float unit of
                  None \<Rightarrow> Inl ValueError
                | Some u \<Rightarrow>
                    (case py_float ext of
                       None \<Rightarrow> Inl ValueError
                     | Some e \<Rightarrow>
                         Inr \<lparr>job_name = jobname, ticket = tk, description = desc, truck = trk,
                              quantity_tons = q, unit_price = u, extended_price = e\<rparr>)))
      | _ \<Rightarrow> Inl ValueError)"


section \<open>Farwest.py\<close>

text \<open>
  \<open>extract_job_name\<close>: the line after the line \<open>JOB\<close>; a label that is the last line is
  passed over, and \<open>None\<close> is returned when no label gives a value. The recursion runs over
  the lines that are left, so \<open>lines[i + 1]\<close> is the head of the rest.
\<close>

fun job_name_after_label :: "string list \<Rightarrow> string option" where
  "job_name_after_label [] = None"
| "job_name_after_label (line # rest) =
     (if lower line = ''job'' \<and> rest \<noteq> [] then Some (strip (hd rest))
      else job_name_after_label rest)"

definition extract_job_name :: "string \<Rightarrow> string option" where
  "extract_job_name text = job_name_after_label (page_lines text)"

text \<open>The dictionary \<open>extract_line_items\<close> appends for one item.\<close>

record line_item =
  item_job_name :: "string option"
  item_invoice_number :: "string option"
  item_date :: string
  item_description :: string
  item_quantity_tons :: rat
  item_unit_price :: rat
  item_extended_price :: rat

text \<open>The pattern \<^verbatim>\<open>\d{1,2}/\d{1,2}/\d{4}\<close>.\<close>

definition farwest_date_rx :: rx where
  "farwest_date_rx =
     Seq (rx_range rx_digit 1 2) (Seq (rx_chr CHR ''/'')
       (Seq (rx_range rx_digit 1 2) (Seq (rx_chr CHR ''/'') (rx_rep rx_digit 4))))"

text \<open>
  The \<open>while i < len(lines)\<close> loop of \<open>extract_line_items\<close>, from index \<open>i\<close> on. A line
  that is a decimal number opens a window of five lines at \<open>i\<close>; the item is built when the
  next line is a decimal number and the one after it a date. \<open>float\<close> is only applied to
  lines the pattern has accepted, so it is the decimal value and cannot raise.
\<close>

function line_items_from ::
  "string list \<Rightarrow> string option \<Rightarrow> string option \<Rightarrow> nat \<Rightarrow> line_item list" where
  "line_items_from lines jn invno i =
     (if i < length lines then
        (if fullmatch decimal_rx (lines ! i) then
           (if i + 1 < length lines \<and> fullmatch decimal_rx (lines ! (i + 1)) then
              (if i + 2 < length lines \<and> fullmatch farwest_date_rx (lines ! (i + 2)) then
                 \<lparr>item_job_name = jn, item_invoice_number = invno,
                  item_date = lines ! (i + 2),
                  item_description = (if i + 3 < length lines then lines ! (i + 3) else []),
                  item_quantity_tons = decimal_value (lines ! i),
                  item_unit_price =
                    (if i + 4 < length lines \<and> fullmatch decimal_rx (lines ! (i + 4))
                     then decimal_value (lines ! (i + 4)) else 0),
                  item_extended_price = decimal_value (lines ! (i + 1))\<rparr>
                 # line_items_from lines jn invno (i + 5)
               else line_items_from lines jn invno (i + 1))
            else line_items_from lines jn invno (i + 1))
         else line_items_from lines jn invno (i + 1))
      else [])"
  by pat_completeness auto
termination
  by (relation "measure (\<lambda>(lines, jn, invno, i). length lines - i)") auto

declare line_items_from.simps [simp del]

definition extract_line_items :: "string \<Rightarrow> string option \<Rightarrow> string option \<Rightarrow> line_item list" where
  "extract_line_items text jn invno = line_items_from (page_lines text) jn invno 0"


section \<open>Invoice records, documents and the page loop\<close>

text \<open>
  The dictionary a page parser returns. The keys \<open>raw_text\<close> and \<open>work_number\<close> are not
  written by every parser: \<open>None\<close> is an absent key.
\<close>

record invoice =
  vendor :: string
  invoice_number :: string
  jobname :: string
  date :: string
  total_field :: string
  raw_text :: "string option"
  work_number :: "string option"
  page :: nat

text \<open>
  A PDF as the parsers see it through \<open>fitz\<close>: it does not open, or it is the list of the
  texts \<open>page.get_text("text")\<close> of its pages.
\<close>

datatype pdf = Unreadable | Pages "string list"

text \<open>What \<open>parse_invoice\<close> hands back: one bare dictionary, or a list of dictionaries.\<close>

datatype parse_result = One invoice | Many "invoice list"



text \<open>The first line in which a pattern is found, and what it matched there.\<close>

fun first_search :: "rx \<Rightarrow> string list \<Rightarrow> string" where
  "first_search r [] = []"
| "first_search r (line # rest) =
     (case search_group Eps r Eps line of Some m \<Rightarrow> m | None \<Rightarrow> first_search r rest)"

text \<open>The money pattern \<^verbatim>\<open>\d{1,3}(?:,\d{3})*\.\d{2}\<close>.\<close>

definition money_rx :: rx where
  "money_rx =
     Seq (rx_range rx_digit 1 3)
       (Seq (Star (Seq (rx_chr CHR '','') (rx_rep rx_digit 3)))
         (Seq (rx_chr CHR ''.'') (rx_rep rx_digit 2)))"

section \<open>knife\_river\_parser.py\<close>

text \<open>Invoice number: the first line that is six or more digits, \<^verbatim>\<open>\d{6,}\<close>.\<close>

definition knife_river_invoice_number :: "string list \<Rightarrow> string" where
  "knife_river_invoice_number lines =
     (case find (fullmatch (rx_min rx_digit 6)) lines of Some line \<Rightarrow> line | None \<Rightarrow> [])"

text \<open>Date: the first \<^verbatim>\<open>\b\d{2}/\d{2}/\d{2}\b\<close> of the first line that has one.\<close>

definition knife_river_date_rx :: rx where
  "knife_river_date_rx =
     Seq WordB (Seq (rx_rep rx_digit 2) (Seq (rx_chr CHR ''/'') (Seq (rx_rep rx_digit 2)
       (Seq (rx_chr CHR ''/'') (Seq (rx_rep rx_digit 2) WordB)))))"

definition knife_river_date :: "string list \<Rightarrow> string" where
  "knife_river_date lines = first_search knife_river_date_rx lines"

text \<open>
  Total: the last money value on the page, \<open>total_matches[-1]\<close>, without its commas.
\<close>

definition knife_river_total :: "string \<Rightarrow> error + string" where
  "knife_river_total text =
     (let total_matches = findall Eps (Seq WordB (Seq money_rx WordB)) Eps text
      in if total_matches \<noteq> []
         then and_then (py_get total_matches (- 1)) (\<lambda>m. Inr (replace '','' [] m))
         else Inr [])"

text \<open>
  Job name: at the first line \<open>ORIGINAL\<close>, the line before it, or else the line two
  before it, unless missing or one of the words below; empty otherwise.
\<close>

definition knife_river_skip_words :: "string list" where
  "knife_river_skip_words = [''INVOICE'', ''TICKET'', ''PAYABLE COPY'', ''SUBTOTAL'', ''TOTAL'']"

definition knife_river_jobname :: "string list \<Rightarrow> error + string" where
  "knife_river_jobname lines =
     (case find (\<lambda>(idx, line). upper line = ''ORIGINAL'') (List.enumerate 0 lines) of
        None \<Rightarrow> Inr []
      | Some (idx, line) \<Rightarrow>
          and_then (if int idx - 1 \<ge> 0 then py_get lines (int idx - 1) else Inr []) (\<lambda>candidate.
          and_then (if int idx - 2 \<ge> 0 then py_get lines (int idx - 2) else Inr []) (\<lambda>candidate2.
            Inr (if candidate \<noteq> [] \<and> upper candidate \<notin> set knife_river_skip_words then candidate
                 else if candidate2 \<noteq> [] \<and> upper candidate2 \<notin> set knife_river_skip_words
                 then candidate2
                 else []))))"

definition parse_knife_river_page :: "string \<Rightarrow> nat \<Rightarrow> error + invoice" where
  "parse_knife_river_page text page_number =
     (let lines = page_lines text in
      and_then (knife_river_total text) (\<lambda>tot.
      and_then (knife_river_jobname lines) (\<lambda>job.
        Inr \<lparr>vendor = ''Knife River'',
             invoice_number = knife_river_invoice_number lines,
             jobname = job,
             date = knife_river_date lines,
             total_field = tot,
             raw_text = Some text,
             work_number = None,
             page = page_number\<rparr>)))"



section \<open>missoula\_landfill\_parser.py\<close>

text \<open>
  The inner loop \<open>for j in range(i + 1, min(i + 5, len(lines)))\<close> of the invoice-number
  rule, over the indices that are left: the first line \<open>lines[j]\<close> that is six or seven
  digits.
\<close>

fun scan_after_signature :: "string list \<Rightarrow> nat list \<Rightarrow> error + string option" where
  "scan_after_signature lines [] = Inr None"
| "scan_after_signature lines (j # js) =
     (case py_get lines (int j) of
        Inl e \<Rightarrow> Inl e
      | Inr line \<Rightarrow>
          if fullmatch (rx_range rx_digit 6 7) line then Inr (Some line)
          else scan_after_signature lines js)"

text \<open>The outer loop \<open>for i, ln in enumerate(lines)\<close>, over the pairs that are left.\<close>

fun signature_scan :: "string list \<Rightarrow> (nat \<times> string) list \<Rightarrow> error + string option" where
  "signature_scan lines [] = Inr None"
| "signature_scan lines ((i, line) # rest) =
     (if contains ''SIGNATURE'' (upper line) then
        (case scan_after_signature lines [i + 1..<min (i + 5) (length lines)] of
           Inl e \<Rightarrow> Inl e
         | Inr (Some found) \<Rightarrow> Inr (Some found)
         | Inr None \<Rightarrow> signature_scan lines rest)
      else signature_scan lines rest)"

definition extract_missoula_invoice_number :: "string \<Rightarrow> error + string" where
  "extract_missoula_invoice_number text =
     (let lines = page_lines text in
      case signature_scan lines (List.enumerate 0 lines) of
        Inl e \<Rightarrow> Inl e
      | Inr (Some found) \<Rightarrow> Inr found
      | Inr None \<Rightarrow>
          (case find (fullmatch (rx_range rx_digit 6 7)) lines of
             Some line \<Rightarrow> Inr line
           | None \<Rightarrow>
               (case search_group WordB (rx_range rx_digit 6 7) WordB text of
                  Some m \<Rightarrow> Inr m
                | None \<Rightarrow> Inr [])))"

text \<open>Date: the first \<^verbatim>\<open>\b\d{1,2}/\d{1,2}/\d{2}\b\<close>.\<close>

definition missoula_date_rx :: rx where
  "missoula_date_rx =
     Seq WordB (Seq (rx_range rx_digit 1 2) (Seq (rx_chr CHR ''/'') (Seq (rx_range rx_digit 1 2)
       (Seq (rx_chr CHR ''/'') (Seq (rx_rep rx_digit 2) WordB)))))"

definition extract_missoula_date :: "string list \<Rightarrow> string" where
  "extract_missoula_date lines = first_search missoula_date_rx lines"

text \<open>
  \<open>max(xs, key=key)\<close>: the first element whose key no other element exceeds; an empty list
  raises \<open>ValueError\<close>. \<open>max_key_from\<close> carries the best element so far.
\<close>

fun max_key_from :: "('a \<Rightarrow> 'k::linorder) \<Rightarrow> 'a \<Rightarrow> 'a list \<Rightarrow> 'a" where
  "max_key_from key best [] = best"
| "max_key_from key best (x # xs) = max_key_from key (if key best < key x then x else best) xs"

definition py_max_key :: "('a \<Rightarrow> 'k::linorder) \<Rightarrow> 'a list \<Rightarrow> error + 'a" where
  "py_max_key key xs = (case xs of [] \<Rightarrow> Inl ValueError | x # rest \<Rightarrow> Inr (max_key_from key x rest))"

text \<open>
  Total: the candidates are the money values that follow a dollar sign,
  \<^verbatim>\<open>\$(\d{1,3}(?:,\d{3})*\.\d{2})\<close>; each is parsed with its commas removed (a decimal
  literal, on which \<open>float\<close> cannot raise), and the largest non-zero one is returned
  without its commas.
\<close>

definition money_matches :: "string \<Rightarrow> string list" where
  "money_matches text = findall (rx_chr CHR ''$'') money_rx Eps text"

definition comma_free :: "string \<Rightarrow> string" where
  "comma_free x = replace '','' [] x"

definition money_value :: "string \<Rightarrow> rat" where
  "money_value x = decimal_value (comma_free x)"

definition extract_missoula_total :: "string \<Rightarrow> error + string" where
  "extract_missoula_total text =
     (if money_matches text = [] then Inr []
      else
        (let parsed = map (\<lambda>x. (money_value x, x)) (money_matches text);
             nonzero = filter (\<lambda>p. fst p > 0) parsed
         in and_then (if nonzero \<noteq> [] then py_max_key fst nonzero else py_max_key fst parsed)
              (\<lambda>best. Inr (comma_free (snd best)))))"

text \<open>Job name: after the second date, with a fallback.\<close>

definition fallback_bad :: "string list" where
  "fallback_bad = [''PAYMENT'', ''GRANT'', ''CREEK'', ''EXCAVATING'', ''MISSOULA'',
                   ''LANDFILL'', ''GROSS'', ''TARE'', ''NET'', ''WEIGHT'', ''INVOICE'',
                   ''INBOUND'', ''SCALE'', ''SIGNATURE'']"

definition fallback_jobname :: "string list \<Rightarrow> string" where
  "fallback_jobname lines =
     (case find (\<lambda>line.
               fullmatch (rx_range (Atom (\<lambda>c. is_upper c \<or> is_digit c \<or> c = CHR '' '')) 3 30) line
               \<and> \<not> list_ex (\<lambda>b. contains b (upper line)) fallback_bad) lines of
        Some line \<Rightarrow> line
      | None \<Rightarrow> [])"

definition weight_keywords :: "string list" where
  "weight_keywords = [''GROSS'', ''TARE'', ''NET'', ''WEIGHT'', ''SCALE'', ''INBOUND'']"

fun scan_jobname :: "string list \<Rightarrow> nat list \<Rightarrow> error + string option" where
  "scan_jobname lines [] = Inr None"
| "scan_jobname lines (i # rest) =
     (case py_get lines (int i) of
        Inl e \<Rightarrow> Inl e
      | Inr raw \<Rightarrow>
          (let line = strip raw in
           if line = [] then scan_jobname lines rest
           else if isdigit line then scan_jobname lines rest
           else if list_ex (\<lambda>w. contains w (upper line)) weight_keywords then scan_jobname lines rest
           else Inr (Some line)))"

definition extract_missoula_jobname :: "string list \<Rightarrow> error + string" where
  "extract_missoula_jobname lines =
     (let date_indices =
            map fst (filter (\<lambda>(idx, line). search_group Eps missoula_date_rx Eps line \<noteq> None)
                            (List.enumerate 0 lines))
      in if length date_indices < 2 then Inr (fallback_jobname lines)
         else
           and_then (py_get date_indices 1) (\<lambda>second.
             (let start_idx = second + 1 in
              and_then (scan_jobname lines [start_idx..<min (start_idx + 6) (length lines)])
                (\<lambda>found. case found of
                            Some line \<Rightarrow> Inr line
                          | None \<Rightarrow> Inr (fallback_jobname lines)))))"

definition parse_missoula_landfill_page :: "string \<Rightarrow> nat \<Rightarrow> error + invoice" where
  "parse_missoula_landfill_page text page_number =
     (let lines = page_lines text in
      and_then (extract_missoula_invoice_number text) (\<lambda>inv_no.
      and_then (extract_missoula_total text) (\<lambda>tot.
      and_then (extract_missoula_jobname lines) (\<lambda>job.
        Inr \<lparr>vendor = ''Missoula Landfill'',
             invoice_number = inv_no,
             jobname = job,
             date = extract_missoula_date lines,
             total_field = tot,
             raw_text = Some text,
             work_number = None,
             page = page_number\<rparr>))))"


section \<open>core\_main\_parser.py\<close>

















section \<open>vender\_parser\_wizard.py: the parser the wizard writes\<close>





section \<open>Vendor dispatch\<close>

text \<open>\<open>s.split(sep)\<close> for a separator of one character, and \<open>sep.join(parts)\<close>.\<close>

fun py_split :: "char \<Rightarrow> string \<Rightarrow> string list" where
  "py_split sep [] = [[]]"
| "py_split sep (c # s) =
     (if c = sep then [] # py_split sep s
      else (case py_split sep s of
              [] \<Rightarrow> [[c]]
            | p # ps \<Rightarrow> (c # p) # ps))"

fun py_join :: "string \<Rightarrow> string list \<Rightarrow> string" where
  "py_join sep [] = []"
| "py_join sep [p] = p"
| "py_join sep (p # q # ps) = p @ sep @ py_join sep (q # ps)"

text \<open>invoice\_sorter\_ui.py: the alias table and \<open>derive_vendor_module\<close>.\<close>

definition VENDOR_ALIASES :: "string \<rightharpoonup> string" where
  "VENDOR_ALIASES = map_of [(''knife river'', ''knife_river_parser''),
                            (''core & main'', ''core_main_parser'')]"

definition derive_vendor_module :: "string \<Rightarrow> string" where
  "derive_vendor_module vendor_folder =
     (let raw = strip (lower vendor_folder) in
      case VENDOR_ALIASES raw of
        Some module_name \<Rightarrow> module_name
      | None \<Rightarrow>
          (let cleaned = map (\<lambda>ch. if is_alnum ch then ch else CHR ''_'') raw;
               cleaned = py_join ''_'' (filter (\<lambda>part. part \<noteq> []) (py_split CHR ''_'' cleaned))
           in cleaned @ ''_parser''))"

text \<open>
  What the review panel ends up showing. The importable modules are a map from module
  names to their \<open>parse_invoice\<close>; a name outside it makes \<open>__import__\<close> raise, which
  \<open>load_parsed_data\<close> reports as a parser error.
\<close>

datatype panel = NoParserConfigured | ParserError | Parsed parse_result

definition load_parsed_data ::
  "(string \<rightharpoonup> (pdf \<Rightarrow> error + parse_result)) \<Rightarrow> string \<Rightarrow> pdf \<Rightarrow> panel" where
  "load_parsed_data modules vendor_module_name pdf_path =
     (if vendor_module_name = [] then NoParserConfigured
      else (case modules vendor_module_name of
              None \<Rightarrow> ParserError
            | Some parser \<Rightarrow>
                (case parser pdf_path of
                   Inl e \<Rightarrow> ParserError
                 | Inr result \<Rightarrow> Parsed result)))"

text \<open>
  vendor\_manager.py: \<open>get_vendor_parser\<close>. A module is a map from attribute names to
  functions.
\<close>

definition get_vendor_parser :: "(string \<rightharpoonup> (string \<rightharpoonup> 'f)) \<Rightarrow> string \<Rightarrow> error + 'f" where
  "get_vendor_parser modules vendor_name =
     (let vendor_raw = replace '' '' ''_'' (lower vendor_name);
          module_name = ''vendor_parsers.'' @ vendor_raw @ ''_parser'';
          function_name = ''parse_'' @ vendor_raw @ ''_pdf''
      in case modules module_name of
           None \<Rightarrow> Inl (RuntimeError (''Cannot import vendor parser: '' @ module_name))
         | Some attributes \<Rightarrow>
             (case attributes function_name of
                None \<Rightarrow> Inl (RuntimeError (''Parser module has no function '' @ function_name))
              | Some f \<Rightarrow> Inr f))"

text \<open>
  The normalization as the specification words it, for comparison: lower case, every
  character that is neither alphanumeric nor a space removed, runs of spaces turned into
  single underscores.
\<close>

definition spec_normalize :: "string \<Rightarrow> string" where
  "spec_normalize key =
     py_join ''_'' (filter (\<lambda>part. part \<noteq> [])
       (py_split CHR '' '' (filter (\<lambda>c. is_alnum c \<or> c = CHR '' '') (lower key))))"

(*THEOREMS*)

section \<open>What a match of a pattern looks like\<close>

lemma slice_split: "i \<le> m \<Longrightarrow> m \<le> j \<Longrightarrow> slice t i j = slice t i m @ slice t m j"
proof -
  assume a: "i \<le> m" "m \<le> j"
  then have "j - i = (m - i) + (j - m)" by simp
  then have "take (j - i) (drop i t) = take (m - i) (drop i t) @ take (j - m) (drop (m - i) (drop i t))"
    by (simp only: take_add)
  with a show ?thesis by (simp add: slice_def)
qed

lemma cnt_split: "i \<le> m \<Longrightarrow> m \<le> j \<Longrightarrow> cnt Q t i j = cnt Q t i m + cnt Q t m j"
  by (simp add: cnt_def slice_split [of i m j])

lemma cnt_same: "cnt Q t i i = 0"
  by (simp add: cnt_def slice_def)

lemma cnt_one:
  assumes "i < length t"
  shows "cnt Q t i (Suc i) = (if Q (t ! i) then 1 else 0)"
proof -
  from assms have "drop i t = t ! i # drop (Suc i) t"
    by (simp add: Cons_nth_drop_Suc)
  then show ?thesis
    by (simp add: cnt_def slice_def)
qed

lemma enat_Suc_0: "enat (Suc 0) = 1"
  by (metis One_nat_def one_enat_def)

lemma ms_bounds:
  "j \<in> set (ms t r i) \<Longrightarrow> i \<le> length t \<Longrightarrow>
     i \<le> j \<and> j \<le> length t \<and> rx_lo Q r \<le> cnt Q t i j \<and> enat (cnt Q t i j) \<le> rx_hi Q r"
proof (induction t r i arbitrary: j rule: ms.induct)
  case (1 t p i)
  from "1.prems" have a: "j = Suc i" "i < length t" "p (t ! i)"
    by (auto split: if_splits)
  then have c: "cnt Q t i j = (if Q (t ! i) then 1 else 0)"
    by (simp add: cnt_one)
  have lo: "rx_lo Q (Atom p) \<le> cnt Q t i j"
  proof (cases "\<forall>c. p c \<longrightarrow> Q c")
    case True
    with a have "Q (t ! i)" by blast
    with c have "cnt Q t i j = 1" by simp
    moreover from True have "rx_lo Q (Atom p) = 1" by simp
    ultimately show ?thesis by simp
  next
    case False
    then have "rx_lo Q (Atom p) = 0" by auto
    then show ?thesis by simp
  qed
  have hi: "enat (cnt Q t i j) \<le> rx_hi Q (Atom p)"
  proof (cases "Q (t ! i)")
    case True
    with a have "\<not> (\<forall>c. p c \<longrightarrow> \<not> Q c)" by blast
    then have "rx_hi Q (Atom p) = 1" by auto
    moreover from True c have "enat (cnt Q t i j) = 1" by (simp add: enat_Suc_0)
    ultimately show ?thesis by simp
  next
    case False
    with c have "enat (cnt Q t i j) = 0" by (simp add: enat_0)
    then show ?thesis by simp
  qed
  from a lo hi show ?case by simp
next
  case (2 t i)
  then show ?case by (simp add: cnt_same flip: zero_enat_def)
next
  case (3 t a b i)
  from "3.prems" obtain m where m: "m \<in> set (ms t a i)" and j: "j \<in> set (ms t b m)"
    by auto
  from "3.IH"(1) [OF m "3.prems"(2)]
  have A: "i \<le> m" "m \<le> length t" "rx_lo Q a \<le> cnt Q t i m" "enat (cnt Q t i m) \<le> rx_hi Q a"
    by simp_all
  from "3.IH"(2) [OF m j A(2)]
  have B: "m \<le> j" "j \<le> length t" "rx_lo Q b \<le> cnt Q t m j" "enat (cnt Q t m j) \<le> rx_hi Q b"
    by simp_all
  have "enat (cnt Q t i m) + enat (cnt Q t m j) \<le> rx_hi Q a + rx_hi Q b"
    using A(4) B(4) by (rule add_mono)
  then have "enat (cnt Q t i m + cnt Q t m j) \<le> rx_hi Q a + rx_hi Q b"
    by simp
  with A B show ?case
    by (simp add: cnt_split [of i m j])
next
  case (4 t a b i)
  from "4.prems" have "j \<in> set (ms t a i) \<or> j \<in> set (ms t b i)" by auto
  then show ?case
  proof
    assume "j \<in> set (ms t a i)"
    from "4.IH"(1) [OF this "4.prems"(2)] show ?thesis
      by (simp add: min_le_iff_disj le_max_iff_disj)
  next
    assume "j \<in> set (ms t b i)"
    from "4.IH"(2) [OF this "4.prems"(2)] show ?thesis
      by (simp add: min_le_iff_disj le_max_iff_disj)
  qed
next
  case (5 t a i)
  from "5.prems"(1) have "j \<in> set (concat (map (\<lambda>j. if i < j \<and> j \<le> length t then ms t (Star a) j else [])
                        (ms t a i)) @ [i])"
    by (subst (asm) ms.simps(5))
  then consider "j = i"
    | m where "m \<in> set (ms t a i)" "i < m" "m \<le> length t" "j \<in> set (ms t (Star a) m)"
    by (auto split: if_splits)
  then show ?case
  proof cases
    case 1
    then show ?thesis using "5.prems" by (simp add: cnt_same flip: zero_enat_def)
  next
    case 2
    from "5.IH"(1) [OF 2(1) "5.prems"(2)]
    have A: "i \<le> m" "enat (cnt Q t i m) \<le> rx_hi Q a" by simp_all
    from "5.IH"(2) [OF 2(1) _ 2(4) 2(3)] 2
    have B: "m \<le> j" "j \<le> length t" "enat (cnt Q t m j) \<le> rx_hi Q (Star a)" by simp_all
    have "enat (cnt Q t i j) \<le> rx_hi Q (Star a)"
    proof (cases "rx_hi Q a = 0")
      case True
      with A B show ?thesis
        by (simp add: cnt_split [of i m j] enat_0_iff)
    next
      case False
      then show ?thesis by simp
    qed
    with A B show ?thesis by simp
  qed
next
  case (6 t i)
  then show ?case by (simp add: cnt_same split: if_splits flip: zero_enat_def)
next
  case (7 t i)
  then show ?case by (simp add: cnt_same split: if_splits flip: zero_enat_def)
next
  case (8 t i)
  then show ?case by (auto simp add: cnt_same split: if_splits simp flip: zero_enat_def)
qed


lemma fullmatch_bounds:
  assumes "fullmatch r s"
  shows "rx_lo Q r \<le> length (filter Q s) \<and> enat (length (filter Q s)) \<le> rx_hi Q r"
proof -
  from assms have "length s \<in> set (ms s r 0)" by (simp add: fullmatch_def)
  from ms_bounds [OF this, of Q] show ?thesis by (simp add: cnt_def slice_def)
qed

lemma match_at_bounds:
  assumes "(m, j, e) \<in> set (match_at t pre g post p)" and "p \<le> length t"
  shows "rx_lo Q g \<le> length (filter Q (slice t m j)) \<and> enat (length (filter Q (slice t m j))) \<le> rx_hi Q g"
proof -
  from assms(1) have m: "m \<in> set (ms t pre p)" and j: "j \<in> set (ms t g m)"
    by (auto simp: match_at_def)
  from ms_bounds [OF m assms(2), of "\<lambda>c. True"] have "m \<le> length t" by simp
  from ms_bounds [OF j this, of Q] show ?thesis by (simp add: cnt_def)
qed

lemma search_from_bounds:
  assumes "search_from pre g post t i = Some (p, m, j, e)"
  shows "rx_lo Q g \<le> length (filter Q (slice t m j)) \<and> enat (length (filter Q (slice t m j))) \<le> rx_hi Q g"
proof -
  from assms have f: "find (\<lambda>p. match_at t pre g post p \<noteq> []) [i..<Suc (length t)] = Some p"
    and h: "hd (match_at t pre g post p) = (m, j, e)"
    by (auto simp del: upt_Suc simp: search_from_def split: option.splits)
  from f have ne: "match_at t pre g post p \<noteq> []"
    unfolding find_Some_iff by blast
  from f have "p \<in> set [i..<Suc (length t)]"
    unfolding find_Some_iff by (metis nth_mem)
  then have p: "p \<le> length t" by (simp del: upt_Suc)
  from ne h have "(m, j, e) \<in> set (match_at t pre g post p)"
    by (metis hd_in_set)
  from match_at_bounds [OF this p] show ?thesis .
qed

lemma search_group_bounds:
  assumes "search_group pre g post t = Some x"
  shows "rx_lo Q g \<le> length (filter Q x) \<and> enat (length (filter Q x)) \<le> rx_hi Q g"
  using assms search_from_bounds [of pre g post t 0]
  by (auto simp: search_group_def split: option.splits)




section \<open>Scenario B on the six-slot extractor\<close>

text \<open>
  Claim C6. For the six-slot block extractor of Knife\_River.py, the lines
  123456, Base Rock, ABC1, 12.50 TN, 9.82, 122.75 yield exactly one block, which
  \<open>parse_block\<close> turns into the load with ticket 123456, truck ABC1, quantity 12.50,
  unit price 9.82 and extended price 122.75; with the truck code replaced by AB1, which
  is no truck code, the window yields no block.
\<close>

theorem scenario_B_six_slot:
  "item_blocks_of_lines [''123456'', ''Base Rock'', ''ABC1'', ''12.50 TN'', ''9.82'', ''122.75'']
     = [[''123456'', ''Base Rock'', ''ABC1'', ''12.50 TN'', ''9.82'', ''122.75'']]
   \<and> extract_item_blocks ''123456\<newline>Base Rock\<newline>ABC1\<newline>12.50 TN\<newline>9.82\<newline>122.75''
     = [[''123456'', ''Base Rock'', ''ABC1'', ''12.50 TN'', ''9.82'', ''122.75'']]
   \<and> parse_block [''123456'', ''Base Rock'', ''ABC1'', ''12.50 TN'', ''9.82'', ''122.75''] jn
     = Inr \<lparr>job_name = jn, ticket = ''123456'', description = ''Base Rock'', truck = ''ABC1'',
            quantity_tons = 25 / 2, unit_price = 491 / 50, extended_price = 491 / 4\<rparr>
   \<and> \<not> is_truck_code ''AB1''
   \<and> item_blocks_of_lines [''123456'', ''Base Rock'', ''AB1'', ''12.50 TN'', ''9.82'', ''122.75''] = []
   \<and> extract_item_blocks ''123456\<newline>Base Rock\<newline>AB1\<newline>12.50 TN\<newline>9.82\<newline>122.75'' = []"
  by code_simp

section \<open>A ticket line while a block is open\<close>

lemma startswith_set: "startswith s p \<Longrightarrow> set p \<subseteq> set s"
  by (induction s p rule: startswith.induct) auto

lemma contains_set: "contains w s \<Longrightarrow> set w \<subseteq> set s"
proof (induction s)
  case Nil
  then show ?case by simp
next
  case (Cons a s)
  from Cons.prems have "startswith (a # s) w \<or> contains w s" by simp
  then show ?case
  proof
    assume "startswith (a # s) w"
    then show ?thesis by (rule startswith_set)
  next
    assume "contains w s"
    then have "set w \<subseteq> set s" by (rule Cons.IH)
    then show ?thesis by auto
  qed
qed

lemma bad_words_start: "list_all (\<lambda>w. w \<noteq> [] \<and> \<not> is_digit (hd w)) bad_words"
  by code_simp

lemma digits_lower_fixed: "list_all (\<lambda>c. to_lower c = c) ''0123456789''"
  by code_simp

lemma to_lower_digit: "is_digit c \<Longrightarrow> to_lower c = c"
  using digits_lower_fixed unfolding is_digit_def list_all_iff by blast

lemma lower_digits: "list_all is_digit s \<Longrightarrow> lower s = s"
  by (induction s) (auto simp: lower_def to_lower_digit)

lemma digits_no_bad_word:
  assumes "list_all is_digit s"
  shows "\<not> list_ex (\<lambda>word. contains word s) bad_words"
proof -
  have "\<not> contains w s" if "w \<in> set bad_words" for w
  proof
    assume "contains w s"
    then have sub: "set w \<subseteq> set s" by (rule contains_set)
    from that bad_words_start have "w \<noteq> [] \<and> \<not> is_digit (hd w)"
      by (simp add: list_all_iff)
    then have "\<exists>c \<in> set w. \<not> is_digit c"
      using hd_in_set by blast
    with sub assms show False
      by (auto simp: list_all_iff)
  qed
  then show ?thesis by (auto simp: list_ex_iff)
qed

lemma ticket_step:
  assumes "is_ticket line"
  shows "block_step line (blocks, current) = (blocks, [line])"
proof -
  from assms have d: "list_all is_digit line" by (simp add: is_ticket_def isdigit_def)
  then have "\<not> list_ex (\<lambda>word. contains word (lower line)) bad_words"
    by (simp add: lower_digits digits_no_bad_word)
  with assms show ?thesis by (simp add: block_step_def)
qed

text \<open>
  Claim C7, for the extractor of Knife\_River.py. A line that is a ticket number (the
  window-start predicate), met in any state of the loop, leaves the emitted blocks as they
  are, discards the buffer and makes that line the new buffer; so after any sequence of
  lines followed by a ticket line the buffer is that line alone.
\<close>

theorem ticket_line_resets_accumulation:
  assumes "is_ticket line"
  shows "block_step line (blocks, current) = (blocks, [line])
       \<and> fold block_step (before @ [line]) ([], [])
           = (fst (fold block_step before ([], [])), [line])"
proof
  show "block_step line (blocks, current) = (blocks, [line])"
    using assms by (rule ticket_step)
  show "fold block_step (before @ [line]) ([], []) = (fst (fold block_step before ([], [])), [line])"
    using ticket_step [OF assms, of "fst (fold block_step before ([], []))" "snd (fold block_step before ([], []))"]
    by simp
qed

theorem ticket_line_resets_accumulation_witness:
  "is_ticket ''123457''
   \<and> block_step ''123457'' ([], [''123456'', ''Base Rock'']) = ([], [''123457''])
   \<and> fold block_step ([''123456'', ''Base Rock''] @ [''123457'']) ([], [])
       = (fst (fold block_step [''123456'', ''Base Rock''] ([], [])), [''123457''])"
proof -
  have h: "is_ticket ''123457''" by code_simp
  from ticket_line_resets_accumulation [OF h, of "[]" "[''123456'', ''Base Rock'']" "[''123456'', ''Base Rock'']"]
  show ?thesis using h by blast
qed

text \<open>
  The extractor of Farwest.py does not reset. In Scenario A the second line, 641.34, is a
  decimal number and so a window start, met while the window opened by 65.31 is being
  read: it is taken as the extended price of that window, and the item is emitted. Had
  the window been discarded and restarted at 641.34, the result would be that of the
  loop started at position 1, which is empty.
\<close>

theorem farwest_start_line_does_not_reset:
  "fullmatch decimal_rx ''65.31'' \<and> fullmatch decimal_rx ''641.34''
   \<and> line_items_from [''65.31'', ''641.34'', ''10/1/2025'', ''3/4 Base'', ''9.82''] None None 0
       = [\<lparr>item_job_name = None, item_invoice_number = None, item_date = ''10/1/2025'',
           item_description = ''3/4 Base'', item_quantity_tons = 6531 / 100,
           item_unit_price = 491 / 50, item_extended_price = 32067 / 50\<rparr>]
   \<and> line_items_from [''65.31'', ''641.34'', ''10/1/2025'', ''3/4 Base'', ''9.82''] None None 1 = []"
  by code_simp

section \<open>What an emitted window has passed\<close>

lemma block_step_keeps_valid:
  assumes "\<forall>b \<in> set (fst st). length b = 6 \<and> is_ticket (b ! 0) \<and> is_truck_code (b ! 2)
             \<and> is_quantity_line (b ! 3) \<and> is_unit_price (b ! 4) \<and> is_extended_price (b ! 5)"
    and "snd st \<noteq> [] \<longrightarrow> is_ticket (snd st ! 0)"
  shows "(\<forall>b \<in> set (fst (block_step line st)). length b = 6 \<and> is_ticket (b ! 0) \<and> is_truck_code (b ! 2)
             \<and> is_quantity_line (b ! 3) \<and> is_unit_price (b ! 4) \<and> is_extended_price (b ! 5))
       \<and> (snd (block_step line st) \<noteq> [] \<longrightarrow> is_ticket (snd (block_step line st) ! 0))"
proof (cases st)
  case (Pair blocks current)
  with assms show ?thesis
    by (auto simp: block_step_def Let_def nth_append)
qed

lemma fold_block_step_valid:
  assumes "\<forall>b \<in> set (fst st). length b = 6 \<and> is_ticket (b ! 0) \<and> is_truck_code (b ! 2)
             \<and> is_quantity_line (b ! 3) \<and> is_unit_price (b ! 4) \<and> is_extended_price (b ! 5)"
    and "snd st \<noteq> [] \<longrightarrow> is_ticket (snd st ! 0)"
  shows "\<forall>b \<in> set (fst (fold block_step lines st)). length b = 6 \<and> is_ticket (b ! 0) \<and> is_truck_code (b ! 2)
             \<and> is_quantity_line (b ! 3) \<and> is_unit_price (b ! 4) \<and> is_extended_price (b ! 5)"
  using assms
proof (induction lines arbitrary: st)
  case Nil
  then show ?case by simp
next
  case (Cons line lines)
  from block_step_keeps_valid [OF Cons.prems, of line]
  have "\<forall>b \<in> set (fst (fold block_step lines (block_step line st))). length b = 6 \<and> is_ticket (b ! 0) \<and> is_truck_code (b ! 2)
             \<and> is_quantity_line (b ! 3) \<and> is_unit_price (b ! 4) \<and> is_extended_price (b ! 5)"
    by (intro Cons.IH) blast+
  then show ?case by simp
qed

lemma item_blocks_valid:
  "\<forall>b \<in> set (item_blocks_of_lines lines). length b = 6 \<and> is_ticket (b ! 0) \<and> is_truck_code (b ! 2)
             \<and> is_quantity_line (b ! 3) \<and> is_unit_price (b ! 4) \<and> is_extended_price (b ! 5)"
  unfolding item_blocks_of_lines_def by (rule fold_block_step_valid) simp_all

lemma line_items_source:
  "it \<in> set (line_items_from lines jn invno i) \<Longrightarrow>
   \<exists>k. k + 2 < length lines
     \<and> fullmatch decimal_rx (lines ! k) \<and> item_quantity_tons it = decimal_value (lines ! k)
     \<and> fullmatch decimal_rx (lines ! (k + 1)) \<and> item_extended_price it = decimal_value (lines ! (k + 1))
     \<and> fullmatch farwest_date_rx (lines ! (k + 2)) \<and> item_date it = lines ! (k + 2)
     \<and> item_description it = (if k + 3 < length lines then lines ! (k + 3) else [])
     \<and> item_unit_price it =
         (if k + 4 < length lines \<and> fullmatch decimal_rx (lines ! (k + 4))
          then decimal_value (lines ! (k + 4)) else 0)"
proof (induction lines jn invno i rule: line_items_from.induct)
  case (1 lines jn invno i)
  show ?case
  proof (cases "i < length lines \<and> fullmatch decimal_rx (lines ! i)
                \<and> i + 1 < length lines \<and> fullmatch decimal_rx (lines ! (i + 1))
                \<and> i + 2 < length lines \<and> fullmatch farwest_date_rx (lines ! (i + 2))")
    case True
    with "1.prems" have "it = \<lparr>item_job_name = jn, item_invoice_number = invno,
                  item_date = lines ! (i + 2),
                  item_description = (if i + 3 < length lines then lines ! (i + 3) else []),
                  item_quantity_tons = decimal_value (lines ! i),
                  item_unit_price =
                    (if i + 4 < length lines \<and> fullmatch decimal_rx (lines ! (i + 4))
                     then decimal_value (lines ! (i + 4)) else 0),
                  item_extended_price = decimal_value (lines ! (i + 1))\<rparr>
        \<or> it \<in> set (line_items_from lines jn invno (i + 5))"
      by (subst (asm) line_items_from.simps) simp
    then show ?thesis
    proof
      assume "it \<in> set (line_items_from lines jn invno (i + 5))"
      with True "1.IH"(1) show ?thesis by blast
    next
      assume e: "it = \<lparr>item_job_name = jn, item_invoice_number = invno,
                  item_date = lines ! (i + 2),
                  item_description = (if i + 3 < length lines then lines ! (i + 3) else []),
                  item_quantity_tons = decimal_value (lines ! i),
                  item_unit_price =
                    (if i + 4 < length lines \<and> fullmatch decimal_rx (lines ! (i + 4))
                     then decimal_value (lines ! (i + 4)) else 0),
                  item_extended_price = decimal_value (lines ! (i + 1))\<rparr>"
      show ?thesis
        by (rule exI [of _ i]) (use True e in simp)
    qed
  next
    case False
    with "1.prems" have "i < length lines" and "it \<in> set (line_items_from lines jn invno (i + 1))"
      by (subst (asm) line_items_from.simps; simp split: if_splits; fail)+
    with False "1.IH"(2-4) show ?thesis
      by (metis)
  qed
qed

text \<open>
  Claim C2, as the code has it. Every block that \<open>extract_item_blocks\<close> (Knife\_River.py)
  emits has six lines, and its ticket, truck code, quantity, unit price and extended
  price pass their validators again. Every item that \<open>extract_line_items\<close> (Farwest.py)
  emits comes from a window at some position \<open>k\<close> whose quantity, extended price and date
  lines pass their patterns; its description is the fourth line, or empty when the page
  ends before it, and its unit price is the fifth line when that is a decimal number and
  0 otherwise.
\<close>

theorem emitted_windows_revalidate:
  "(\<forall>b \<in> set (extract_item_blocks text).
      length b = 6 \<and> is_ticket (b ! 0) \<and> is_truck_code (b ! 2)
      \<and> is_quantity_line (b ! 3) \<and> is_unit_price (b ! 4) \<and> is_extended_price (b ! 5))
   \<and> (\<forall>it \<in> set (extract_line_items text jn invno).
        \<exists>k. k + 2 < length (page_lines text)
          \<and> fullmatch decimal_rx (page_lines text ! k)
          \<and> item_quantity_tons it = decimal_value (page_lines text ! k)
          \<and> fullmatch decimal_rx (page_lines text ! (k + 1))
          \<and> item_extended_price it = decimal_value (page_lines text ! (k + 1))
          \<and> fullmatch farwest_date_rx (page_lines text ! (k + 2))
          \<and> item_date it = page_lines text ! (k + 2)
          \<and> item_description it =
              (if k + 3 < length (page_lines text) then page_lines text ! (k + 3) else [])
          \<and> item_unit_price it =
              (if k + 4 < length (page_lines text) \<and> fullmatch decimal_rx (page_lines text ! (k + 4))
               then decimal_value (page_lines text ! (k + 4)) else 0))"
proof
  show "\<forall>b \<in> set (extract_item_blocks text).
      length b = 6 \<and> is_ticket (b ! 0) \<and> is_truck_code (b ! 2)
      \<and> is_quantity_line (b ! 3) \<and> is_unit_price (b ! 4) \<and> is_extended_price (b ! 5)"
    unfolding extract_item_blocks_def by (rule item_blocks_valid)
  show "\<forall>it \<in> set (extract_line_items text jn invno).
        \<exists>k. k + 2 < length (page_lines text)
          \<and> fullmatch decimal_rx (page_lines text ! k)
          \<and> item_quantity_tons it = decimal_value (page_lines text ! k)
          \<and> fullmatch decimal_rx (page_lines text ! (k + 1))
          \<and> item_extended_price it = decimal_value (page_lines text ! (k + 1))
          \<and> fullmatch farwest_date_rx (page_lines text ! (k + 2))
          \<and> item_date it = page_lines text ! (k + 2)
          \<and> item_description it =
              (if k + 3 < length (page_lines text) then page_lines text ! (k + 3) else [])
          \<and> item_unit_price it =
              (if k + 4 < length (page_lines text) \<and> fullmatch decimal_rx (page_lines text ! (k + 4))
               then decimal_value (page_lines text ! (k + 4)) else 0)"
    unfolding extract_line_items_def by (intro ballI) (erule line_items_source)
qed

theorem emitted_windows_revalidate_witness:
  "[''123456'', ''Base Rock'', ''ABC1'', ''12.50 TN'', ''9.82'', ''122.75'']
     \<in> set (extract_item_blocks ''123456\<newline>Base Rock\<newline>ABC1\<newline>12.50 TN\<newline>9.82\<newline>122.75'')
   \<and> is_ticket ''123456'' \<and> is_truck_code ''ABC1'' \<and> is_quantity_line ''12.50 TN''
   \<and> is_unit_price ''9.82'' \<and> is_extended_price ''122.75''
   \<and> (\<exists>it \<in> set (extract_line_items ''65.31\<newline>641.34\<newline>10/1/2025\<newline>3/4 Base\<newline>9.82'' None None).
        \<exists>k. fullmatch decimal_rx (page_lines ''65.31\<newline>641.34\<newline>10/1/2025\<newline>3/4 Base\<newline>9.82'' ! k)
          \<and> item_quantity_tons it = decimal_value (page_lines ''65.31\<newline>641.34\<newline>10/1/2025\<newline>3/4 Base\<newline>9.82'' ! k))"
proof -
  let ?B = "[''123456'', ''Base Rock'', ''ABC1'', ''12.50 TN'', ''9.82'', ''122.75'']"
  let ?tb = "''123456\<newline>Base Rock\<newline>ABC1\<newline>12.50 TN\<newline>9.82\<newline>122.75''"
  let ?ta = "''65.31\<newline>641.34\<newline>10/1/2025\<newline>3/4 Base\<newline>9.82''"
  have mem: "?B \<in> set (extract_item_blocks ?tb)"
    by code_simp
  have "\<forall>b \<in> set (extract_item_blocks ?tb).
      length b = 6 \<and> is_ticket (b ! 0) \<and> is_truck_code (b ! 2)
      \<and> is_quantity_line (b ! 3) \<and> is_unit_price (b ! 4) \<and> is_extended_price (b ! 5)"
    using emitted_windows_revalidate [of ?tb] by (rule conjunct1)
  with mem have "length ?B = 6 \<and> is_ticket (?B ! 0) \<and> is_truck_code (?B ! 2)
      \<and> is_quantity_line (?B ! 3) \<and> is_unit_price (?B ! 4) \<and> is_extended_price (?B ! 5)"
    by blast
  then have kr: "is_ticket ''123456'' \<and> is_truck_code ''ABC1'' \<and> is_quantity_line ''12.50 TN''
      \<and> is_unit_price ''9.82'' \<and> is_extended_price ''122.75''"
    by simp
  have ne: "extract_line_items ?ta None None \<noteq> []"
    by code_simp
  then obtain it where it: "it \<in> set (extract_line_items ?ta None None)"
    by (meson hd_in_set)
  have "\<exists>k. fullmatch decimal_rx (page_lines ?ta ! k)
          \<and> item_quantity_tons it = decimal_value (page_lines ?ta ! k)"
    using emitted_windows_revalidate [of ?ta None None] it by blast
  with it mem kr show ?thesis
    by blast
qed

text \<open>
  The claim as stated fails on Farwest.py: a window whose unit-price line is not a number
  is emitted all the same, with the unit price 0.
\<close>

theorem farwest_defaults_unit_price:
  "\<not> fullmatch decimal_rx ''N/A''
   \<and> page_lines ''65.31\<newline>641.34\<newline>10/1/2025\<newline>3/4 Base\<newline>N/A''
       = [''65.31'', ''641.34'', ''10/1/2025'', ''3/4 Base'', ''N/A'']
   \<and> extract_line_items ''65.31\<newline>641.34\<newline>10/1/2025\<newline>3/4 Base\<newline>N/A'' None None
       = [\<lparr>item_job_name = None, item_invoice_number = None, item_date = ''10/1/2025'',
           item_description = ''3/4 Base'', item_quantity_tons = 6531 / 100,
           item_unit_price = 0, item_extended_price = 32067 / 50\<rparr>]"
  by code_simp

section \<open>The page parsers never raise\<close>

lemma py_get_in_range: "i < length xs \<Longrightarrow> py_get xs (int i) = Inr (xs ! i)"
  by (simp add: py_get_def)

lemma py_get_last: "xs \<noteq> [] \<Longrightarrow> py_get xs (- 1) = Inr (last xs)"
proof -
  assume ne: "xs \<noteq> []"
  then have pos: "Suc 0 \<le> length xs" by (cases xs) simp_all
  then have n: "nat (int (length xs) + - 1) = length xs - Suc 0" by linarith
  from pos have "py_get xs (- 1) = Inr (xs ! nat (int (length xs) + - 1))"
    by (simp add: py_get_def)
  with ne n show ?thesis
    by (simp add: last_conv_nth)
qed

lemma knife_river_total_value:
  "knife_river_total text =
     Inr (let total_matches = findall Eps (Seq WordB (Seq money_rx WordB)) Eps text
          in if total_matches \<noteq> [] then replace '','' [] (last total_matches) else [])"
  by (simp add: knife_river_total_def Let_def py_get_last and_then_def)

lemma find_enumerate_index:
  assumes "find P (List.enumerate 0 xs) = Some (idx, x)"
  shows "idx < length xs \<and> x = xs ! idx"
proof -
  from assms have "(idx, x) \<in> set (List.enumerate 0 xs)"
    unfolding find_Some_iff by (metis nth_mem)
  then show ?thesis by (simp add: in_set_enumerate_eq)
qed

lemma py_get_guarded:
  assumes "i < length xs" and "0 \<le> k"
  shows "\<exists>c. (if int i - k \<ge> 0 then py_get xs (int i - k) else Inr d) = Inr c"
proof (cases "int i - k \<ge> 0")
  case True
  from assms have "int i - k < int (length xs)" by simp
  with True show ?thesis by (simp add: py_get_def)
next
  case False
  then show ?thesis by simp
qed

lemma knife_river_jobname_total: "\<exists>v. knife_river_jobname lines = Inr v"
proof (cases "find (\<lambda>(idx, line). upper line = ''ORIGINAL'') (List.enumerate 0 lines)")
  case None
  then show ?thesis by (simp add: knife_river_jobname_def)
next
  case (Some a)
  obtain idx line where a: "a = (idx, line)" by (cases a) auto
  from Some have "find (\<lambda>(idx, line). upper line = ''ORIGINAL'') (List.enumerate 0 lines) = Some (idx, line)"
    by (simp only: a)
  then have lt: "idx < length lines"
    by (rule find_enumerate_index [THEN conjunct1])
  have "(0::int) \<le> 1" "(0::int) \<le> 2" by simp_all
  note k = this
  from py_get_guarded [OF lt k(1), of "[]"] obtain c1
    where c1: "(if int idx - 1 \<ge> 0 then py_get lines (int idx - 1) else Inr []) = Inr c1" by blast
  from py_get_guarded [OF lt k(2), of "[]"] obtain c2
    where c2: "(if int idx - 2 \<ge> 0 then py_get lines (int idx - 2) else Inr []) = Inr c2" by blast
  have "knife_river_jobname lines =
      and_then (if int idx - 1 \<ge> 0 then py_get lines (int idx - 1) else Inr []) (\<lambda>candidate.
          and_then (if int idx - 2 \<ge> 0 then py_get lines (int idx - 2) else Inr []) (\<lambda>candidate2.
            Inr (if candidate \<noteq> [] \<and> upper candidate \<notin> set knife_river_skip_words then candidate
                 else if candidate2 \<noteq> [] \<and> upper candidate2 \<notin> set knife_river_skip_words
                 then candidate2
                 else [])))"
    unfolding knife_river_jobname_def Some a by simp
  also have "\<dots> = Inr (if c1 \<noteq> [] \<and> upper c1 \<notin> set knife_river_skip_words then c1
                 else if c2 \<noteq> [] \<and> upper c2 \<notin> set knife_river_skip_words
                 then c2
                 else [])"
    unfolding c1 c2 and_then_def by simp
  finally show ?thesis by blast
qed

lemma parse_knife_river_page_total:
  "\<exists>tot job. knife_river_total text = Inr tot \<and> knife_river_jobname (page_lines text) = Inr job
     \<and> parse_knife_river_page text n =
        Inr \<lparr>vendor = ''Knife River'',
             invoice_number = knife_river_invoice_number (page_lines text),
             jobname = job,
             date = knife_river_date (page_lines text),
             total_field = tot,
             raw_text = Some text,
             work_number = None,
             page = n\<rparr>"
proof -
  obtain tot where t: "knife_river_total text = Inr tot"
    using knife_river_total_value by blast
  obtain job where j: "knife_river_jobname (page_lines text) = Inr job"
    using knife_river_jobname_total by blast
  from t j show ?thesis
    by (simp add: parse_knife_river_page_def Let_def and_then_def)
qed

lemma scan_after_signature_total:
  "\<forall>j \<in> set js. j < length lines \<Longrightarrow> \<exists>v. scan_after_signature lines js = Inr v"
  by (induction js) (auto simp: py_get_in_range)

lemma scan_after_signature_digits:
  "scan_after_signature lines js = Inr (Some v) \<Longrightarrow> fullmatch (rx_range rx_digit 6 7) v"
  by (induction js) (auto split: sum.splits if_splits)

lemma signature_scan_total:
  "\<exists>v. signature_scan lines ps = Inr v"
proof (induction ps)
  case Nil
  then show ?case by simp
next
  case (Cons p ps)
  obtain i line where p: "p = (i, line)" by (cases p) auto
  have "\<exists>v. scan_after_signature lines [i + 1..<min (i + 5) (length lines)] = Inr v"
    by (rule scan_after_signature_total) auto
  with Cons p show ?case
    by (auto split: option.splits)
qed

lemma signature_scan_digits:
  "signature_scan lines ps = Inr (Some v) \<Longrightarrow> fullmatch (rx_range rx_digit 6 7) v"
proof (induction ps)
  case Nil
  then show ?case by simp
next
  case (Cons p ps)
  obtain i line where p: "p = (i, line)" by (cases p) auto
  with Cons show ?case
    by (auto split: sum.splits option.splits if_splits dest: scan_after_signature_digits)
qed

section \<open>The shape of an invoice number\<close>

lemma some_digit: "Ex is_digit"
  by (rule exI [of _ "CHR ''0''"]) (simp add: is_digit_def)

lemma digit6_7_lo: "rx_lo (\<lambda>c. True) (rx_range rx_digit 6 7) = 6"
  by (simp add: rx_range_def rx_digit_def eval_nat_numeral)

lemma digit6_7_hi: "rx_hi (\<lambda>c. True) (rx_range rx_digit 6 7) = 7"
  by (simp add: rx_range_def rx_digit_def eval_nat_numeral some_digit)

lemma digit6_7_only: "rx_hi (\<lambda>c. \<not> is_digit c) (rx_range rx_digit 6 7) = 0"
  by (simp add: rx_range_def rx_digit_def eval_nat_numeral)

lemma digit6_lo: "rx_lo (\<lambda>c. True) (rx_min rx_digit 6) = 6"
  by (simp add: rx_min_def rx_digit_def eval_nat_numeral)

lemma digit6_only: "rx_hi (\<lambda>c. \<not> is_digit c) (rx_min rx_digit 6) = 0"
  by (simp add: rx_min_def rx_digit_def eval_nat_numeral)

lemma bounds_digits:
  assumes "enat (length (filter (\<lambda>c. \<not> is_digit c) s)) \<le> 0"
  shows "list_all is_digit s"
proof -
  from assms have "length (filter (\<lambda>c. \<not> is_digit c) s) = 0"
    by (simp add: zero_enat_def)
  then have "filter (\<lambda>c. \<not> is_digit c) s = []" by simp
  then show ?thesis by (simp add: filter_empty_conv list_all_iff)
qed

lemma bounds_length:
  assumes "(6::nat) \<le> length (filter (\<lambda>c. True) s)"
  shows "6 \<le> length s"
  using assms by simp

lemma bounds_length_hi:
  assumes "enat (length (filter (\<lambda>c. True) s)) \<le> 7"
  shows "length s \<le> 7"
proof -
  have "(7::enat) = enat 7" by (simp add: numeral_eq_enat)
  with assms show ?thesis by simp
qed

lemma fullmatch_six_or_more:
  assumes "fullmatch (rx_min rx_digit 6) s"
  shows "list_all is_digit s \<and> 6 \<le> length s"
proof
  from fullmatch_bounds [OF assms, of "\<lambda>c. \<not> is_digit c"] show "list_all is_digit s"
    by (simp add: digit6_only bounds_digits)
  from fullmatch_bounds [OF assms, of "\<lambda>c. True"] show "6 \<le> length s"
    by (simp add: digit6_lo)
qed

lemma fullmatch_six_or_seven:
  assumes "fullmatch (rx_range rx_digit 6 7) s"
  shows "list_all is_digit s \<and> 6 \<le> length s \<and> length s \<le> 7"
proof (intro conjI)
  from fullmatch_bounds [OF assms, of "\<lambda>c. \<not> is_digit c"] show "list_all is_digit s"
    by (simp add: digit6_7_only bounds_digits)
  from fullmatch_bounds [OF assms, of "\<lambda>c. True"] show "6 \<le> length s"
    by (simp add: digit6_7_lo)
  from fullmatch_bounds [OF assms, of "\<lambda>c. True"] show "length s \<le> 7"
    by (simp add: digit6_7_hi bounds_length_hi)
qed

lemma search_six_or_seven:
  assumes "search_group pre (rx_range rx_digit 6 7) post t = Some s"
  shows "list_all is_digit s \<and> 6 \<le> length s \<and> length s \<le> 7"
proof (intro conjI)
  from search_group_bounds [OF assms, of "\<lambda>c. \<not> is_digit c"] show "list_all is_digit s"
    by (simp add: digit6_7_only bounds_digits)
  from search_group_bounds [OF assms, of "\<lambda>c. True"] show "6 \<le> length s"
    by (simp add: digit6_7_lo)
  from search_group_bounds [OF assms, of "\<lambda>c. True"] show "length s \<le> 7"
    by (simp add: digit6_7_hi bounds_length_hi)
qed

lemma find_holds: "find P xs = Some x \<Longrightarrow> P x"
  unfolding find_Some_iff by blast

lemma knife_river_invoice_number_shape:
  "knife_river_invoice_number lines = []
   \<or> (list_all is_digit (knife_river_invoice_number lines) \<and> 6 \<le> length (knife_river_invoice_number lines))"
proof (cases "find (fullmatch (rx_min rx_digit 6)) lines")
  case None
  then show ?thesis by (simp add: knife_river_invoice_number_def)
next
  case (Some line)
  then have "fullmatch (rx_min rx_digit 6) line" by (rule find_holds)
  then have "list_all is_digit line \<and> 6 \<le> length line" by (rule fullmatch_six_or_more)
  with Some show ?thesis by (simp add: knife_river_invoice_number_def)
qed

lemma missoula_invoice_number_shape:
  "\<exists>v. extract_missoula_invoice_number text = Inr v
     \<and> (v = [] \<or> (list_all is_digit v \<and> 6 \<le> length v \<and> length v \<le> 7))"
proof -
  obtain r where r: "signature_scan (page_lines text) (List.enumerate 0 (page_lines text)) = Inr r"
    using signature_scan_total by blast
  show ?thesis
  proof (cases r)
    case (Some found)
    with r have "fullmatch (rx_range rx_digit 6 7) found"
      using signature_scan_digits by blast
    then have "list_all is_digit found \<and> 6 \<le> length found \<and> length found \<le> 7"
      by (rule fullmatch_six_or_seven)
    with r Some show ?thesis
      by (simp add: extract_missoula_invoice_number_def Let_def)
  next
    case None
    show ?thesis
    proof (cases "find (fullmatch (rx_range rx_digit 6 7)) (page_lines text)")
      case (Some line)
      then have "fullmatch (rx_range rx_digit 6 7) line" by (rule find_holds)
      then have "list_all is_digit line \<and> 6 \<le> length line \<and> length line \<le> 7"
        by (rule fullmatch_six_or_seven)
      with r None Some show ?thesis
        by (simp add: extract_missoula_invoice_number_def Let_def)
    next
      case no_line: None
      show ?thesis
      proof (cases "search_group WordB (rx_range rx_digit 6 7) WordB text")
        case None
        with r \<open>r = None\<close> no_line show ?thesis
          by (simp add: extract_missoula_invoice_number_def Let_def)
      next
        case (Some m)
        then have "list_all is_digit m \<and> 6 \<le> length m \<and> length m \<le> 7"
          by (rule search_six_or_seven)
        with r \<open>r = None\<close> no_line Some show ?thesis
          by (simp add: extract_missoula_invoice_number_def Let_def)
      qed
    qed
  qed
qed

section \<open>The largest money value\<close>

lemma max_key_from_first_max:
  "key best \<le> key (max_key_from key best xs)
   \<and> (\<forall>x \<in> set xs. key x \<le> key (max_key_from key best xs))
   \<and> (key (max_key_from key best xs) = key best \<longrightarrow> max_key_from key best xs = best)
   \<and> (key best < key (max_key_from key best xs) \<longrightarrow>
        (\<exists>k < length xs. max_key_from key best xs = xs ! k
           \<and> (\<forall>j < k. key (xs ! j) < key (max_key_from key best xs))))"
proof (induction xs arbitrary: best)
  case Nil
  then show ?case by simp
next
  case (Cons x xs)
  let ?b = "if key best < key x then x else best"
  let ?r = "max_key_from key ?b xs"
  note IH = Cons.IH [of ?b]
  have r: "max_key_from key best (x # xs) = ?r" by simp
  from IH have a: "key ?b \<le> key ?r" and b: "\<forall>y \<in> set xs. key y \<le> key ?r"
    and c: "key ?r = key ?b \<longrightarrow> ?r = ?b"
    and d: "key ?b < key ?r \<longrightarrow> (\<exists>k < length xs. ?r = xs ! k \<and> (\<forall>j < k. key (xs ! j) < key ?r))"
    by blast+
  have bx: "key best \<le> key ?b" "key x \<le> key ?b" by auto
  have 1: "key best \<le> key ?r" using a bx(1) by (rule order_trans [rotated])
  have 2: "\<forall>y \<in> set (x # xs). key y \<le> key ?r"
    using a b bx(2) by (auto intro: order_trans)
  have 3: "key ?r = key best \<longrightarrow> ?r = best"
  proof
    assume e: "key ?r = key best"
    with a bx have "key ?b = key best" by (metis order_antisym)
    moreover from this have "?b = best" by (auto split: if_splits)
    ultimately show "?r = best" using c e by simp
  qed
  have 4: "key best < key ?r \<longrightarrow>
        (\<exists>k < length (x # xs). ?r = (x # xs) ! k \<and> (\<forall>j < k. key ((x # xs) ! j) < key ?r))"
  proof
    assume lt: "key best < key ?r"
    show "\<exists>k < length (x # xs). ?r = (x # xs) ! k \<and> (\<forall>j < k. key ((x # xs) ! j) < key ?r)"
    proof (cases "key ?b < key ?r")
      case True
      with d obtain k where k: "k < length xs" "?r = xs ! k" "\<forall>j < k. key (xs ! j) < key ?r"
        by blast
      from True bx(2) have x: "key x < key ?r" by (rule le_less_trans [rotated])
      have "\<forall>j < Suc k. key ((x # xs) ! j) < key ?r"
      proof (intro allI impI)
        fix j assume "j < Suc k"
        then show "key ((x # xs) ! j) < key ?r"
          using k(3) x by (cases j) auto
      qed
      with k(1,2) show ?thesis
        by (intro exI [of _ "Suc k"]) simp
    next
      case False
      with a have e: "key ?r = key ?b" by (simp add: order_antisym not_less)
      with c have rb: "?r = ?b" by simp
      from e lt have "key best < key ?b" by simp
      then have "?b = x" by (auto split: if_splits)
      with rb have "?r = x" by simp
      then show ?thesis
        by (intro exI [of _ 0]) simp
    qed
  qed
  from 1 2 3 4 show ?case unfolding r by blast
qed

lemma py_max_key_split:
  assumes "xs \<noteq> []"
  shows "\<exists>before r after. py_max_key key xs = Inr r \<and> xs = before @ r # after
           \<and> (\<forall>y \<in> set before. key y < key r) \<and> (\<forall>y \<in> set after. key y \<le> key r)"
proof -
  from assms obtain x rest where xs: "xs = x # rest" by (cases xs) auto
  let ?r = "max_key_from key x rest"
  have pm: "py_max_key key xs = Inr ?r" by (simp add: py_max_key_def xs)
  from max_key_from_first_max [of key x rest]
  have a: "key x \<le> key ?r" and b: "\<forall>y \<in> set rest. key y \<le> key ?r"
    and c: "key ?r = key x \<longrightarrow> ?r = x"
    and d: "key x < key ?r \<longrightarrow> (\<exists>k < length rest. ?r = rest ! k \<and> (\<forall>j < k. key (rest ! j) < key ?r))"
    by blast+
  show ?thesis
  proof (cases "key x < key ?r")
    case False
    with a have "key ?r = key x" by (simp add: order_antisym not_less)
    with c have "?r = x" by simp
    then have "xs = [] @ ?r # rest" by (simp add: xs)
    with pm b show ?thesis by (metis empty_iff list.set(1))
  next
    case True
    with d obtain k where k: "k < length rest" "?r = rest ! k" "\<forall>j < k. key (rest ! j) < key ?r"
      by blast
    from k(1,2) have split: "xs = (x # take k rest) @ ?r # drop (Suc k) rest"
      by (simp add: xs id_take_nth_drop [symmetric])
    have pre: "\<forall>y \<in> set (x # take k rest). key y < key ?r"
    proof
      fix y assume "y \<in> set (x # take k rest)"
      then consider "y = x" | "y \<in> set (take k rest)" by auto
      then show "key y < key ?r"
      proof cases
        case 1
        with True show ?thesis by simp
      next
        case 2
        then obtain j where "j < length (take k rest)" "y = take k rest ! j"
          by (metis in_set_conv_nth)
        with k(1,3) show ?thesis by simp
      qed
    qed
    have post: "\<forall>y \<in> set (drop (Suc k) rest). key y \<le> key ?r"
      using b by (meson in_set_dropD)
    from pm split pre post show ?thesis by blast
  qed
qed

lemma first_max_through_filter:
  fixes key :: "'a \<Rightarrow> 'k::linorder"
  assumes "filter P xs = before' @ r # after'"
    and "\<forall>y \<in> set before'. key y < key r"
    and "\<forall>y \<in> set after'. key y \<le> key r"
    and "\<forall>y \<in> set xs. \<not> P y \<longrightarrow> key y < key r"
  shows "\<exists>before after. xs = before @ r # after
           \<and> (\<forall>y \<in> set before. key y < key r) \<and> (\<forall>y \<in> set after. key y \<le> key r)"
  using assms
proof (induction xs arbitrary: before')
  case Nil
  then show ?case by simp
next
  case (Cons a xs)
  show ?case
  proof (cases "P a")
    case False
    with Cons.prems have f: "filter P xs = before' @ r # after'" by simp
    from Cons.IH [OF f Cons.prems(2,3)] Cons.prems(4)
    obtain before after where s: "xs = before @ r # after"
      "\<forall>y \<in> set before. key y < key r" "\<forall>y \<in> set after. key y \<le> key r"
      by auto
    from False Cons.prems(4) have "key a < key r" by simp
    with s have "a # xs = (a # before) @ r # after \<and> (\<forall>y \<in> set (a # before). key y < key r)"
      by simp
    with s(3) show ?thesis by blast
  next
    case True
    with Cons.prems(1) have f: "a # filter P xs = before' @ r # after'" by simp
    show ?thesis
    proof (cases before')
      case Nil
      with f have ar: "a = r" and af: "after' = filter P xs" by simp_all
      have "\<forall>y \<in> set xs. key y \<le> key r"
      proof
        fix y assume y: "y \<in> set xs"
        show "key y \<le> key r"
        proof (cases "P y")
          case True
          with y af have "y \<in> set after'" by simp
          with Cons.prems(3) show ?thesis by blast
        next
          case False
          with y Cons.prems(4) have "key y < key r" by simp
          then show ?thesis by simp
        qed
      qed
      with ar have "a # xs = [] @ r # xs \<and> (\<forall>y \<in> set []. key y < key r) \<and> (\<forall>y \<in> set xs. key y \<le> key r)"
        by simp
      then show ?thesis by blast
    next
      case (Cons b bs)
      with f have ab: "a = b" and f': "filter P xs = bs @ r # after'" by simp_all
      from Cons.prems(2) Cons have bs: "\<forall>y \<in> set bs. key y < key r" and kb: "key b < key r"
        by simp_all
      from \<open>\<forall>y\<in>set (a # xs). \<not> P y \<longrightarrow> key y < key r\<close>
      have rest: "\<forall>y \<in> set xs. \<not> P y \<longrightarrow> key y < key r" by simp
      from Cons.IH [OF f' bs Cons.prems(3) rest]
      obtain before after where s: "xs = before @ r # after"
        "\<forall>y \<in> set before. key y < key r" "\<forall>y \<in> set after. key y \<le> key r"
        by auto
      from s ab kb have "a # xs = (a # before) @ r # after \<and> (\<forall>y \<in> set (a # before). key y < key r)"
        by simp
      with s(3) show ?thesis by blast
    qed
  qed
qed



lemma missoula_total_first_max:
  assumes "money_matches text \<noteq> []"
  shows "\<exists>before x after. money_matches text = before @ x # after
           \<and> extract_missoula_total text = Inr (comma_free x)
           \<and> (\<forall>y \<in> set before. money_value y < money_value x)
           \<and> (\<forall>y \<in> set after. money_value y \<le> money_value x)"
proof -
  let ?f = "\<lambda>x. (money_value x, x)"
  let ?parsed = "map ?f (money_matches text)"
  let ?nonzero = "filter (\<lambda>p. fst p > 0) ?parsed"
  let ?pick = "if ?nonzero \<noteq> [] then py_max_key fst ?nonzero else py_max_key fst ?parsed"
  from assms have pne: "?parsed \<noteq> []" by simp
  have "\<exists>b r a. ?pick = Inr r \<and> ?parsed = b @ r # a
           \<and> (\<forall>y \<in> set b. fst y < fst r) \<and> (\<forall>y \<in> set a. fst y \<le> fst r)"
  proof (cases "?nonzero \<noteq> []")
    case False
    with py_max_key_split [OF pne, of fst] show ?thesis by simp
  next
    case True
    from py_max_key_split [OF True, of fst]
    obtain b' r a' where m: "py_max_key fst ?nonzero = Inr r" "?nonzero = b' @ r # a'"
      "\<forall>y \<in> set b'. fst y < fst r" "\<forall>y \<in> set a'. fst y \<le> fst r"
      by blast
    from m(2) have "r \<in> set ?nonzero" by simp
    then have pos: "0 < fst r" by simp
    have "\<forall>y \<in> set ?parsed. \<not> 0 < fst y \<longrightarrow> fst y < fst r"
      using pos by auto
    from first_max_through_filter [OF m(2) m(3) m(4) this]
    obtain b a where "?parsed = b @ r # a" "\<forall>y \<in> set b. fst y < fst r" "\<forall>y \<in> set a. fst y \<le> fst r"
      by blast
    with m(1) True show ?thesis by auto
  qed
  then obtain b r a where p: "?pick = Inr r" "?parsed = b @ r # a"
    "\<forall>y \<in> set b. fst y < fst r" "\<forall>y \<in> set a. fst y \<le> fst r"
    by blast
  from p(2) obtain us vs where u: "money_matches text = us @ vs" "b = map ?f us" "r # a = map ?f vs"
    by (auto simp: map_eq_append_conv)
  from u(3) obtain x ws where v: "vs = x # ws" "r = ?f x" "a = map ?f ws"
    by (auto simp: Cons_eq_map_conv)
  have tot: "extract_missoula_total text = Inr (comma_free x)"
    using assms p(1) v(2) by (simp add: extract_missoula_total_def Let_def and_then_def)
  from p(3) u(2) v(2) have bef: "\<forall>y \<in> set us. money_value y < money_value x" by simp
  from p(4) v(2,3) have aft: "\<forall>y \<in> set ws. money_value y \<le> money_value x" by simp
  from u(1) v(1) tot bef aft show ?thesis by blast
qed

lemma missoula_total_total: "\<exists>v. extract_missoula_total text = Inr v"
proof (cases "money_matches text = []")
  case True
  then show ?thesis by (simp add: extract_missoula_total_def)
next
  case False
  from missoula_total_first_max [OF False] show ?thesis by blast
qed





section \<open>The shape of a total\<close>


















lemma scan_jobname_total:
  "\<forall>j \<in> set js. j < length lines \<Longrightarrow> \<exists>v. scan_jobname lines js = Inr v"
  by (induction js) (auto simp: py_get_in_range Let_def)

lemma py_get_second: "2 \<le> length xs \<Longrightarrow> py_get xs 1 = Inr (xs ! 1)"
  by (simp add: py_get_def)

lemma missoula_jobname_total: "\<exists>v. extract_missoula_jobname lines = Inr v"
proof -
  let ?idx = "map fst (filter (\<lambda>(idx, line). search_group Eps missoula_date_rx Eps line \<noteq> None)
                            (List.enumerate 0 lines))"
  show ?thesis
  proof (cases "length ?idx < 2")
    case True
    then show ?thesis by (simp add: extract_missoula_jobname_def Let_def)
  next
    case False
    then have g: "py_get ?idx 1 = Inr (?idx ! 1)" by (simp add: py_get_second)
    let ?start = "?idx ! 1 + 1"
    have "\<exists>v. scan_jobname lines [?start..<min (?start + 6) (length lines)] = Inr v"
      by (rule scan_jobname_total) auto
    then obtain v where v: "scan_jobname lines [?start..<min (?start + 6) (length lines)] = Inr v"
      by blast
    have "extract_missoula_jobname lines =
            (case v of Some line \<Rightarrow> Inr line | None \<Rightarrow> Inr (fallback_jobname lines))"
      using False g v by (simp add: extract_missoula_jobname_def Let_def and_then_def)
    then show ?thesis by (cases v) simp_all
  qed
qed

lemma parse_missoula_landfill_page_total:
  "\<exists>inv_no tot job.
     extract_missoula_invoice_number text = Inr inv_no
     \<and> extract_missoula_total text = Inr tot
     \<and> extract_missoula_jobname (page_lines text) = Inr job
     \<and> parse_missoula_landfill_page text n =
        Inr \<lparr>vendor = ''Missoula Landfill'',
             invoice_number = inv_no,
             jobname = job,
             date = extract_missoula_date (page_lines text),
             total_field = tot,
             raw_text = Some text,
             work_number = None,
             page = n\<rparr>"
proof -
  obtain inv_no where i: "extract_missoula_invoice_number text = Inr inv_no"
    using missoula_invoice_number_shape by blast
  obtain tot where t: "extract_missoula_total text = Inr tot"
    using missoula_total_total by blast
  obtain job where j: "extract_missoula_jobname (page_lines text) = Inr job"
    using missoula_jobname_total by blast
  from i t j show ?thesis
    by (simp add: parse_missoula_landfill_page_def Let_def and_then_def)
qed




section \<open>Invoice numbers, totals and totality of the page parsers\<close>

text \<open>
  Claim C10. On every page text, the invoice number of the Knife River page parser is
  empty or consists of digits only, six or more of them; the invoice number of the
  Missoula Landfill parser is empty or consists of six or seven digits. Both parsers
  return a record on every page.
\<close>

theorem invoice_number_empty_or_digits:
  "(\<exists>r. parse_knife_river_page text n = Inr r
        \<and> (invoice_number r = []
            \<or> (list_all is_digit (invoice_number r) \<and> 6 \<le> length (invoice_number r))))
   \<and> (\<exists>v. extract_missoula_invoice_number text = Inr v
        \<and> (v = [] \<or> (list_all is_digit v \<and> 6 \<le> length v \<and> length v \<le> 7)))
   \<and> (\<exists>r. parse_missoula_landfill_page text n = Inr r
        \<and> (invoice_number r = []
            \<or> (list_all is_digit (invoice_number r) \<and> 6 \<le> length (invoice_number r)
                \<and> length (invoice_number r) \<le> 7)))"
proof (intro conjI)
  from parse_knife_river_page_total [of "text" n] knife_river_invoice_number_shape [of "page_lines text"]
  show "\<exists>r. parse_knife_river_page text n = Inr r
        \<and> (invoice_number r = []
            \<or> (list_all is_digit (invoice_number r) \<and> 6 \<le> length (invoice_number r)))"
    by auto
  show "\<exists>v. extract_missoula_invoice_number text = Inr v
        \<and> (v = [] \<or> (list_all is_digit v \<and> 6 \<le> length v \<and> length v \<le> 7))"
    by (rule missoula_invoice_number_shape)
  from parse_missoula_landfill_page_total [of "text" n] missoula_invoice_number_shape [of "text"]
  show "\<exists>r. parse_missoula_landfill_page text n = Inr r
        \<and> (invoice_number r = []
            \<or> (list_all is_digit (invoice_number r) \<and> 6 \<le> length (invoice_number r)
                \<and> length (invoice_number r) \<le> 7))"
    by auto
qed



section \<open>One record per page\<close>






section \<open>The job name when no candidate qualifies\<close>
















end
